theory Spec2Isabelle
  imports Main
begin

section \<open>Python strings\<close>

text \<open>
  A Python \<open>str\<close> is modelled as a \<^typ>\<open>string\<close> whose characters are the code points
  below 256. On these code points \<open>\d\<close> of the \<open>re\<close> module matches exactly the ten
  ASCII digits, and \<open>str.isspace\<close> holds exactly for the twelve code points listed in
  \<open>isspace\<close>. Python integers are unbounded and are modelled by \<^typ>\<open>int\<close>.
\<close>

definition isspace :: "char \<Rightarrow> bool" where
  "isspace c = (of_char c \<in> {9, 10, 11, 12, 13, 28, 29, 30, 31, 32, 133, 160 :: nat})"

definition isdigit :: "char \<Rightarrow> bool" where
  "isdigit c = (48 \<le> (of_char c :: nat) \<and> (of_char c :: nat) \<le> 57)"

text \<open>\<open>s.strip()\<close>: drop the leading and the trailing white space.\<close>

definition strip :: "string \<Rightarrow> string" where
  "strip s = rev (dropWhile isspace (rev (dropWhile isspace s)))"

text \<open>\<open>s.split(sep)\<close> for a one-character separator: never the empty list.\<close>

fun str_split :: "char \<Rightarrow> string \<Rightarrow> string list" where
  "str_split sep [] = [[]]"
| "str_split sep (c # cs) =
     (if c = sep then [] # str_split sep cs
      else (case str_split sep cs of
              [] \<Rightarrow> [[c]]
            | p # ps \<Rightarrow> (c # p) # ps))"

text \<open>\<open>sep.join(parts)\<close>.\<close>

fun str_join :: "string \<Rightarrow> string list \<Rightarrow> string" where
  "str_join sep [] = []"
| "str_join sep [p] = p"
| "str_join sep (p # q # ps) = p @ sep @ str_join sep (q # ps)"

text \<open>
  The decimal numeral of an integer, as \<open>f'{a}'\<close> and \<open>str(a)\<close> print it. CPython
  refuses to print an integer of more digits than \<open>sys.int_max_str_digits\<close>; the
  numbers printed here are page numbers, and the limit is modelled where a numeral is
  read, in \<open>py_int\<close> below, which is where a printed numeral that is read back meets it.
\<close>

fun str_nat :: "nat \<Rightarrow> string" where
  "str_nat n =
     (if n < 10 then [char_of (48 + n)]
      else str_nat (n div 10) @ [char_of (48 + n mod 10)])"

declare str_nat.simps [simp del]

definition str_int :: "int \<Rightarrow> string" where
  "str_int i = (if i < 0 then CHR ''-'' # str_nat (nat (- i)) else str_nat (nat i))"

section \<open>Errors\<close>

text \<open>
  Every \<open>raise\<close> of the program raises \<open>ValueError\<close>; the raise sites differ in their
  message, which is kept here as a constructor with the values the message interpolates.
  \<open>KeyError\<close> is what \<open>set.remove\<close> raises on a missing element.
\<close>

datatype message =
    PageOutOfRange int int      \<comment> \<open>page \<open>num\<close> is outside 1..\<open>max_page\<close>\<close>
  | FormatError string          \<comment> \<open>format error: \<open>token\<close>\<close>
  | RangeStartAfterEnd string   \<comment> \<open>range \<open>token\<close>: start > end\<close>
  | RangeOutOfRange string int  \<comment> \<open>range \<open>token\<close> is outside 1..\<open>max_page\<close>\<close>
  | InvalidLiteral string       \<comment> \<open>\<open>int()\<close> on a string that is no numeral\<close>
  | ExceedsDigitLimit nat       \<comment> \<open>\<open>int()\<close> on a numeral of that many digits, over the limit\<close>
  | NoPagesSpecified            \<comment> \<open>no pages to extract were given\<close>
  | NoSavePath                  \<comment> \<open>no destination was given\<close>

datatype py_error = ValueError message | KeyError int

section \<open>The page-range parser\<close>

text \<open>
  \<open>PAGE_RE = re.compile(r'^\d+$')\<close> and \<open>RANGE_RE = re.compile(r'^(\d+)-(\d+)$')\<close>,
  used with \<open>match\<close>. \<open>$\<close> matches at the end of the string and also just before a
  newline that ends the string. \<open>RANGE_RE_match\<close> returns the two groups.
\<close>

definition at_end :: "string \<Rightarrow> bool" where
  "at_end e = (e = [] \<or> e = [CHR 0x0A])"

definition PAGE_RE_match :: "string \<Rightarrow> bool" where
  "PAGE_RE_match t = (takeWhile isdigit t \<noteq> [] \<and> at_end (dropWhile isdigit t))"

definition RANGE_RE_match :: "string \<Rightarrow> (string \<times> string) option" where
  "RANGE_RE_match t =
     (let a = takeWhile isdigit t in
      case dropWhile isdigit t of
        [] \<Rightarrow> None
      | c # r \<Rightarrow>
          (let b = takeWhile isdigit r in
           if a \<noteq> [] \<and> c = CHR ''-'' \<and> b \<noteq> [] \<and> at_end (dropWhile isdigit r)
           then Some (a, b) else None))"

text \<open>
  \<open>int(s)\<close> on the strings that reach it here: decimal digits, possibly surrounded by
  white space. A sign or an underscore, which neither regular expression lets through,
  is reported as an invalid literal. CPython raises \<open>ValueError\<close> on a numeral of more
  digits than \<open>sys.int_max_str_digits\<close>, leading zeros counted; the program leaves
  that limit at its default of 4300.
\<close>

definition digit_val :: "char \<Rightarrow> int" where
  "digit_val c = int (of_char c) - 48"

definition int_max_str_digits :: nat where
  "int_max_str_digits = 4300"

definition py_int :: "string \<Rightarrow> py_error + int" where
  "py_int s =
     (let t = strip s in
      if t \<noteq> [] \<and> list_all isdigit t
      then (if int_max_str_digits < length t
            then Inl (ValueError (ExceedsDigitLimit (length t)))
            else Inr (foldl (\<lambda>n c. 10 * n + digit_val c) 0 t))
      else Inl (ValueError (InvalidLiteral s)))"

text \<open>
  The body of the \<open>for token in spec.split(',')\<close> loop of \<open>parse_pages\<close>, with the set
  \<open>pages\<close> as accumulator. \<open>range(a - 1, b)\<close> is \<open>{a - 1..<b}\<close>. The Flet and the
  Tkinter front end define \<open>parse_pages\<close> with the same body.
\<close>

fun parse_tokens :: "int set \<Rightarrow> string list \<Rightarrow> int \<Rightarrow> py_error + int set" where
  "parse_tokens pages [] max_page = Inr pages"
| "parse_tokens pages (tok # rest) max_page =
     (let token = strip tok in
      if token = [] then parse_tokens pages rest max_page
      else if PAGE_RE_match token then
        (case py_int token of
           Inl e \<Rightarrow> Inl e
         | Inr num \<Rightarrow>
             if \<not> (1 \<le> num \<and> num \<le> max_page)
             then Inl (ValueError (PageOutOfRange num max_page))
             else parse_tokens (insert (num - 1) pages) rest max_page)
      else
        (case RANGE_RE_match token of
           None \<Rightarrow> Inl (ValueError (FormatError token))
         | Some (ga, gb) \<Rightarrow>
             (case py_int ga of
                Inl e \<Rightarrow> Inl e
              | Inr a \<Rightarrow>
                  (case py_int gb of
                     Inl e \<Rightarrow> Inl e
                   | Inr b \<Rightarrow>
                       if a > b then Inl (ValueError (RangeStartAfterEnd token))
                       else if a < 1 \<or> b > max_page
                       then Inl (ValueError (RangeOutOfRange token max_page))
                       else parse_tokens (pages \<union> {a - 1..<b}) rest max_page))))"

definition parse_pages :: "string \<Rightarrow> int \<Rightarrow> py_error + int list" where
  "parse_pages spec max_page =
     (let spec' = strip spec in
      if spec' = [] then Inr []
      else (case parse_tokens {} (str_split CHR '','' spec') max_page of
              Inl e \<Rightarrow> Inl e
            | Inr pages \<Rightarrow> Inr (sorted_list_of_set pages)))"

section \<open>The serializer\<close>

text \<open>
  The loop of \<open>update_page_spec_field\<close> that collects the runs of consecutive pages:
  \<open>ranges\<close>, \<open>start\<close> and \<open>prev\<close> are its variables, the list is what is left of
  \<open>pages_1based[1:]\<close>. After the loop the last run is appended.
\<close>

fun ranges_loop :: "(int \<times> int) list \<Rightarrow> int \<Rightarrow> int \<Rightarrow> int list \<Rightarrow> (int \<times> int) list" where
  "ranges_loop ranges start prev [] = ranges @ [(start, prev)]"
| "ranges_loop ranges start prev (page # rest) =
     (if page = prev + 1 then ranges_loop ranges start page rest
      else ranges_loop (ranges @ [(start, prev)]) page page rest)"

text \<open>\<open>f'{a}' if a == b else f'{a}-{b}'\<close>.\<close>

definition spec_part :: "int \<times> int \<Rightarrow> string" where
  "spec_part r =
     (case r of (a, b) \<Rightarrow> if a = b then str_int a else str_int a @ ''-'' @ str_int b)"

text \<open>
  The text that \<open>update_page_spec_field\<close> computes from the selected pages (its local
  \<open>spec_text\<close>, and the empty string when nothing is selected). The sorted list of a
  selection that is not empty has a first element, so \<open>pages_1based[0]\<close> cannot fail;
  a Python set is finite, and the first case of the list below is never taken for one.
\<close>

definition spec_text :: "int set \<Rightarrow> string" where
  "spec_text selected =
     (if selected = {} then []
      else (case sorted_list_of_set ((\<lambda>p. p + 1) ` selected) of
              [] \<Rightarrow> []
            | first # others \<Rightarrow>
                str_join '','' (map spec_part (ranges_loop [] first first others))))"

section \<open>The application state and its handlers\<close>

text \<open>
  The fields of \<open>PDFExtractorApp\<close> that the selection logic reads or writes.
  \<open>reader\<close> holds the page count of the open \<open>PdfReader\<close>; \<open>page_spec_field\<close> is the
  value of the text field.
\<close>

datatype image = Image nat

record app =
  selected_pages :: "int set"
  last_selected_page :: int
  reader :: "nat option"
  thumbnails :: "image list"
  page_spec_field :: string
  save_path :: string

definition init_app :: app where
  "init_app = \<lparr>selected_pages = {}, last_selected_page = - 1, reader = None,
     thumbnails = [], page_spec_field = [], save_path = []\<rparr>"

text \<open>
  What the libraries report about the file being opened: whether \<open>PdfReader(path)\<close>
  succeeds, \<open>reader.is_encrypted\<close>, \<open>len(reader.pages)\<close>, whether the rasterisation
  and the resizing of the thumbnails succeed (then \<open>convert_from_path\<close> returns one
  image for each page from \<open>first_page\<close> to \<open>last_page\<close>), and the default
  destination that \<open>os.path\<close> derives from the path.
\<close>

record pdf_file =
  opens :: bool
  is_encrypted :: bool
  num_pages :: nat
  rasterizes :: bool
  extr_path :: string

definition cleanup_resources :: "app \<Rightarrow> app" where
  "cleanup_resources s =
     s\<lparr>reader := None, thumbnails := [], selected_pages := {}, last_selected_page := - 1\<rparr>"

definition clear_thumbnails :: "app \<Rightarrow> app" where
  "clear_thumbnails s =
     s\<lparr>thumbnails := [], selected_pages := {}, last_selected_page := - 1,
       page_spec_field := [], save_path := []\<rparr>"

text \<open>
  \<open>load_pdf_and_thumbnails\<close>: every exception of its body ends in the handler that
  resets \<open>reader\<close>; a document without pages returns before any thumbnail is made.
\<close>

definition load_pdf_and_thumbnails :: "app \<Rightarrow> pdf_file \<Rightarrow> app" where
  "load_pdf_and_thumbnails s0 f =
     (let s = cleanup_resources s0 in
      if \<not> opens f \<or> is_encrypted f then s\<lparr>reader := None\<rparr>
      else
        (let total_pages = num_pages f;
             s1 = s\<lparr>reader := Some total_pages, save_path := extr_path f\<rparr>
         in if total_pages = 0 then s1
            else
              (let max_thumb_pages = min total_pages 100 in
               if \<not> rasterizes f then s1\<lparr>reader := None\<rparr>
               else s1\<lparr>thumbnails := map Image [1..<Suc max_thumb_pages]\<rparr>)))"

text \<open>The callback of \<open>select_pdf\<close> once a file has been picked.\<close>

definition select_pdf :: "app \<Rightarrow> pdf_file \<Rightarrow> app" where
  "select_pdf s f = load_pdf_and_thumbnails (clear_thumbnails s) f"

definition update_page_spec_field :: "app \<Rightarrow> app" where
  "update_page_spec_field s = s\<lparr>page_spec_field := spec_text (selected_pages s)\<rparr>"

text \<open>\<open>set.remove\<close> raises \<open>KeyError\<close> on an element that is not there.\<close>

definition set_remove :: "int set \<Rightarrow> int \<Rightarrow> py_error + int set" where
  "set_remove A x = (if x \<in> A then Inr (A - {x}) else Inl (KeyError x))"

definition toggle_single_page :: "app \<Rightarrow> int \<Rightarrow> py_error + app" where
  "toggle_single_page s page_number =
     (let idx = page_number - 1 in
      if idx \<in> selected_pages s then
        (case set_remove (selected_pages s) idx of
           Inl e \<Rightarrow> Inl e
         | Inr A \<Rightarrow> Inr (s\<lparr>selected_pages := A\<rparr>))
      else Inr (s\<lparr>selected_pages := insert idx (selected_pages s)\<rparr>))"

text \<open>The body of the \<open>for page_num in range(min_page, max_page + 1)\<close> loop.\<close>

definition range_step :: "app \<Rightarrow> int \<Rightarrow> app" where
  "range_step s page_num =
     (let idx = page_num - 1 in
      if 0 \<le> idx \<and> idx < int (length (thumbnails s))
      then s\<lparr>selected_pages := insert idx (selected_pages s)\<rparr>
      else s)"

definition select_page_range :: "app \<Rightarrow> int \<Rightarrow> int \<Rightarrow> app" where
  "select_page_range s start_page end_page =
     (let min_page = min start_page end_page;
          max_page = max start_page end_page
      in foldl range_step s [min_page..max_page])"

definition toggle_page :: "app \<Rightarrow> int \<Rightarrow> py_error + app" where
  "toggle_page s page_number =
     (case toggle_single_page s page_number of
        Inl e \<Rightarrow> Inl e
      | Inr s' \<Rightarrow> Inr (update_page_spec_field s'))"

text \<open>\<open>handle_page_click\<close>; \<open>shift\<close> is \<open>hasattr(e, 'shift') and e.shift\<close>.\<close>

definition handle_page_click :: "app \<Rightarrow> bool \<Rightarrow> int \<Rightarrow> py_error + app" where
  "handle_page_click s shift page_number =
     (case (if shift \<and> last_selected_page s \<ge> 0
            then Inr (select_page_range s (last_selected_page s) page_number)
            else toggle_single_page s page_number) of
        Inl e \<Rightarrow> Inl e
      | Inr s' \<Rightarrow> Inr (update_page_spec_field (s'\<lparr>last_selected_page := page_number\<rparr>)))"

definition select_all_pages :: "app \<Rightarrow> app" where
  "select_all_pages s =
     (if thumbnails s \<noteq> [] then
        update_page_spec_field
          (s\<lparr>selected_pages := {0..<int (length (thumbnails s))},
             last_selected_page := int (length (thumbnails s))\<rparr>)
      else s)"

definition deselect_all_pages :: "app \<Rightarrow> app" where
  "deselect_all_pages s =
     update_page_spec_field (s\<lparr>selected_pages := {}, last_selected_page := - 1\<rparr>)"

text \<open>
  \<open>on_page_spec_change\<close>, with \<open>text\<close> for \<open>e.control.value\<close>. The \<open>except Exception: pass\<close>
  turns every error of the parser into a return without effect.
\<close>

definition on_page_spec_change :: "app \<Rightarrow> string \<Rightarrow> py_error + app" where
  "on_page_spec_change s text =
     (if thumbnails s = [] \<or> strip text = [] then Inr s
      else (case parse_pages text (int (length (thumbnails s))) of
              Inl e \<Rightarrow> Inr s
            | Inr pages \<Rightarrow> Inr (s\<lparr>selected_pages := set pages\<rparr>)))"

text \<open>
  \<open>run_extract\<close> up to the start of the worker thread: either an error dialog or the
  pages handed to \<open>extract_pages\<close>.
\<close>

datatype extract_result = LoadPdfFirst | ShowError py_error | ExtractPages "int list"

definition run_extract :: "app \<Rightarrow> extract_result" where
  "run_extract s =
     (case reader s of
        None \<Rightarrow> LoadPdfFirst
      | Some n \<Rightarrow>
          (case parse_pages (page_spec_field s) (int n) of
             Inl e \<Rightarrow> ShowError e
           | Inr pages \<Rightarrow>
               if pages = [] then ShowError (ValueError NoPagesSpecified)
               else if save_path s = [] then ShowError (ValueError NoSavePath)
               else ExtractPages pages))"

text \<open>
  The events of the user interface. The text field stores what was typed before its
  \<open>on_change\<close> handler runs. A thumbnail card exists for each \<open>idx\<close> in
  \<open>range(len(self.thumbnails))\<close> and reports \<open>page_num = idx + 1\<close>; the cards of
  \<open>populate_file_based_thumbnail_grid\<close> call \<open>toggle_page\<close>, those of
  \<open>populate_real_thumbnail_grid\<close> call \<open>handle_page_click\<close>.
\<close>

inductive reachable :: "app \<Rightarrow> bool" where
  start: "reachable init_app"
| pick: "reachable s \<Longrightarrow> reachable (select_pdf s f)"
| card: "reachable s \<Longrightarrow> 1 \<le> p \<Longrightarrow> p \<le> int (length (thumbnails s)) \<Longrightarrow>
         toggle_page s p = Inr s' \<Longrightarrow> reachable s'"
| click: "reachable s \<Longrightarrow> 1 \<le> p \<Longrightarrow> p \<le> int (length (thumbnails s)) \<Longrightarrow>
          handle_page_click s shift p = Inr s' \<Longrightarrow> reachable s'"
| select_all: "reachable s \<Longrightarrow> reachable (select_all_pages s)"
| deselect_all: "reachable s \<Longrightarrow> reachable (deselect_all_pages s)"
| typed: "reachable s \<Longrightarrow>
          on_page_spec_change (s\<lparr>page_spec_field := text\<rparr>) text = Inr s' \<Longrightarrow> reachable s'"

definition total_pages :: "app \<Rightarrow> nat" where
  "total_pages s = (case reader s of None \<Rightarrow> 0 | Some n \<Rightarrow> n)"

section \<open>The vocabulary of the specification\<close>

text \<open>
  The definitions of this section are not taken from the program: they restate the
  specification of the parser, so that the program can be compared with it. The tokens
  of a text are what is left after splitting at commas, trimming each piece and dropping
  the empty pieces.
\<close>

definition tokens :: "string \<Rightarrow> string list" where
  "tokens spec = filter (\<lambda>t. t \<noteq> []) (map strip (str_split CHR '','' spec))"

text \<open>The grammar \<open>^\d+$\<close>, and the number that a string of digits denotes.\<close>

definition digits :: "string \<Rightarrow> bool" where
  "digits t = (t \<noteq> [] \<and> list_all isdigit t)"

definition number :: "string \<Rightarrow> int" where
  "number t = foldl (\<lambda>n c. 10 * n + digit_val c) 0 t"

text \<open>
  The grammar \<open>^\d+-\d+$\<close>: the text before and the text after the first hyphen are
  strings of digits.
\<close>

definition range_ends :: "string \<Rightarrow> (string \<times> string) option" where
  "range_ends t =
     (if CHR ''-'' \<in> set t
      then Some (takeWhile (\<lambda>c. c \<noteq> CHR ''-'') t, tl (dropWhile (\<lambda>c. c \<noteq> CHR ''-'') t))
      else None)"

datatype token_kind = Single int | Range int int | Malformed

definition classify :: "string \<Rightarrow> token_kind" where
  "classify t =
     (if digits t then Single (number t)
      else (case range_ends t of
              None \<Rightarrow> Malformed
            | Some (a, b) \<Rightarrow>
                if digits a \<and> digits b then Range (number a) (number b) else Malformed))"

text \<open>
  When a token is in error, and with which message: the three range errors of the
  specification, and the format error that names the token.
\<close>

definition token_error :: "string \<Rightarrow> int \<Rightarrow> message option" where
  "token_error t maxPage =
     (case classify t of
        Single n \<Rightarrow>
          if n < 1 \<or> n > maxPage then Some (PageOutOfRange n maxPage) else None
      | Range a b \<Rightarrow>
          if a > b then Some (RangeStartAfterEnd t)
          else if a < 1 \<or> b > maxPage then Some (RangeOutOfRange t maxPage)
          else None
      | Malformed \<Rightarrow> Some (FormatError t))"

text \<open>The 0-based indices that a token contributes.\<close>

definition token_indices :: "string \<Rightarrow> int set" where
  "token_indices t =
     (case classify t of
        Single n \<Rightarrow> {n - 1}
      | Range a b \<Rightarrow> {a - 1..b - 1}
      | Malformed \<Rightarrow> {})"

text \<open>
  What the specification does not have: the numerals of a token of either grammar, and
  the failure of a token when the digit limit is counted in. A numeral over the limit
  fails when it is converted, before any comparison with the bound, and the first
  numeral of a range is converted first.
\<close>

definition numerals :: "string \<Rightarrow> string list" where
  "numerals t =
     (if digits t then [t]
      else (case range_ends t of
              None \<Rightarrow> []
            | Some (a, b) \<Rightarrow> if digits a \<and> digits b then [a, b] else []))"

definition token_failure :: "string \<Rightarrow> int \<Rightarrow> message option" where
  "token_failure t maxPage =
     (case filter (\<lambda>n. int_max_str_digits < length n) (numerals t) of
        [] \<Rightarrow> token_error t maxPage
      | n # _ \<Rightarrow> Some (ExceedsDigitLimit (length n)))"

text \<open>The failure of the first token that fails, if there is one.\<close>

fun first_failure :: "string list \<Rightarrow> int \<Rightarrow> message option" where
  "first_failure [] maxPage = None"
| "first_failure (t # ts) maxPage =
     (case token_failure t maxPage of
        Some m \<Rightarrow> Some m
      | None \<Rightarrow> first_failure ts maxPage)"

text \<open>
  The canonical form of the serializer: a list of runs \<open>(a, b)\<close>, each with \<open>a \<le> b\<close>,
  in ascending order and with a gap between a run and the next, so that no two of
  them can be merged; and the pages that such a list covers.
\<close>

fun separated :: "(int \<times> int) list \<Rightarrow> bool" where
  "separated [] = True"
| "separated [(a, b)] = (a \<le> b)"
| "separated ((a, b) # (c, d) # rs) = (a \<le> b \<and> b + 1 < c \<and> separated ((c, d) # rs))"

definition cover :: "(int \<times> int) list \<Rightarrow> int set" where
  "cover rs = (\<Union>r\<in>set rs. {fst r..snd r})"

definition canonical_runs :: "(int \<times> int) list \<Rightarrow> int set \<Rightarrow> bool" where
  "canonical_runs rs pages = (separated rs \<and> cover rs = pages)"

text \<open>
  The invariant of the reachable states: the selected indices are finitely many and
  are indices of thumbnails, and there are at most 100 thumbnails and no more than the
  open document has pages.
\<close>

definition inv :: "app \<Rightarrow> bool" where
  "inv s = (finite (selected_pages s)
      \<and> selected_pages s \<subseteq> {0..<int (length (thumbnails s))}
      \<and> length (thumbnails s) \<le> min (total_pages s) 100)"

text \<open>Concrete files and states used to instantiate the theorems below.\<close>

text \<open>A numeral written with as many leading zeros as the digit limit allows digits.\<close>

definition padded :: "string \<Rightarrow> string" where
  "padded t = replicate int_max_str_digits CHR ''0'' @ t"

definition pdf3 :: pdf_file where
  "pdf3 = \<lparr>opens = True, is_encrypted = False, num_pages = 3, rasterizes = True,
     extr_path = ''doc_extr.pdf''\<rparr>"

definition pdf150 :: pdf_file where
  "pdf150 = \<lparr>opens = True, is_encrypted = False, num_pages = 150, rasterizes = True,
     extr_path = ''book_extr.pdf''\<rparr>"

definition loaded3 :: app where
  "loaded3 = select_pdf init_app pdf3"

definition loaded150 :: app where
  "loaded150 = select_pdf init_app pdf150"

definition clicked3 :: app where
  "clicked3 = \<lparr>selected_pages = {0}, last_selected_page = - 1, reader = Some 3,
     thumbnails = [Image 1, Image 2, Image 3], page_spec_field = ''1'',
     save_path = ''doc_extr.pdf''\<rparr>"

section \<open>The example states are reachable\<close>

lemma loaded3_eq:
  "loaded3 = \<lparr>selected_pages = {}, last_selected_page = - 1, reader = Some 3,
     thumbnails = [Image 1, Image 2, Image 3], page_spec_field = [],
     save_path = ''doc_extr.pdf''\<rparr>"
  by code_simp

lemma toggle_loaded3: "toggle_page loaded3 1 = Inr clicked3"
  by code_simp

lemma reachable_loaded3: "reachable loaded3"
  unfolding loaded3_def by (rule reachable.pick) (rule reachable.start)

lemma reachable_loaded150: "reachable loaded150"
  unfolding loaded150_def by (rule reachable.pick) (rule reachable.start)

lemma reachable_clicked3: "reachable clicked3"
proof (rule reachable.card [OF reachable_loaded3 _ _ toggle_loaded3])
  show "1 \<le> (1::int)" by simp
  show "1 \<le> int (length (thumbnails loaded3))" by code_simp
qed

section \<open>Text edits\<close>

text \<open>
  C5. A text edit on which the parser fails is atomic: whatever the state and the text,
  when \<open>parse_pages\<close> raises on the text (with the number of thumbnails as bound, as
  the handler calls it), \<open>on_page_spec_change\<close> returns normally, so the error is not
  propagated, and the state it leaves, the selected set included, is the state before
  the call.
\<close>

theorem spec_change_failure_keeps_state:
  "parse_pages text (int (length (thumbnails s))) = Inl e \<Longrightarrow>
   on_page_spec_change s text = Inr s"
  by (simp add: on_page_spec_change_def)

theorem spec_change_failure_keeps_state_witness:
  "parse_pages ''1-'' (int (length (thumbnails clicked3))) =
     Inl (ValueError (FormatError ''1-''))
   \<and> on_page_spec_change clicked3 ''1-'' = Inr clicked3"
proof -
  have h: "parse_pages ''1-'' (int (length (thumbnails clicked3))) =
             Inl (ValueError (FormatError ''1-''))"
    by code_simp
  from spec_change_failure_keeps_state [OF h] h show ?thesis by simp
qed

text \<open>
  C8, as the program has it. On an empty or blank text the parser returns the empty
  list for every bound, but \<open>on_page_spec_change\<close> returns before calling it: the
  state, with its selected set and its anchor, stays as it was.
\<close>

theorem blank_spec_change_keeps_state:
  "strip text = [] \<Longrightarrow>
   parse_pages text n = Inr [] \<and> on_page_spec_change s text = Inr s"
  by (simp add: parse_pages_def on_page_spec_change_def)

theorem blank_spec_change_keeps_state_witness:
  "strip ''  '' = [] \<and> parse_pages ''  '' 3 = Inr []
   \<and> on_page_spec_change clicked3 ''  '' = Inr clicked3"
proof -
  have h: "strip ''  '' = []" by code_simp
  from blank_spec_change_keeps_state [OF h, of 3 clicked3] h show ?thesis by simp
qed

text \<open>
  C8 as stated fails: with page 1 selected, an empty text does not empty the selection.
\<close>

theorem blank_spec_change_counterexample:
  "on_page_spec_change clicked3 [] = Inr clicked3 \<and> selected_pages clicked3 = {0}
   \<and> on_page_spec_change clicked3 [] \<noteq> Inr (clicked3\<lparr>selected_pages := {}\<rparr>)"
  by code_simp

section \<open>Clicks\<close>

text \<open>
  C6, as the program has it. Toggling never raises, for any page number, inside the
  document or not: \<open>toggle_single_page\<close> flips the membership of \<open>page - 1\<close> in the
  selected set, \<open>toggle_page\<close> does the same and refreshes the text field, and
  \<open>handle_page_click\<close> without the shift modifier does the same and then sets the
  anchor to the page.
\<close>

theorem toggle_flips:
  "toggle_single_page s p =
     Inr (s\<lparr>selected_pages :=
            (if p - 1 \<in> selected_pages s then selected_pages s - {p - 1}
             else insert (p - 1) (selected_pages s))\<rparr>)
   \<and> toggle_page s p =
     Inr (update_page_spec_field (s\<lparr>selected_pages :=
            (if p - 1 \<in> selected_pages s then selected_pages s - {p - 1}
             else insert (p - 1) (selected_pages s))\<rparr>))
   \<and> handle_page_click s False p =
     Inr (update_page_spec_field (s\<lparr>selected_pages :=
            (if p - 1 \<in> selected_pages s then selected_pages s - {p - 1}
             else insert (p - 1) (selected_pages s)),
            last_selected_page := p\<rparr>))"
  by (simp add: toggle_single_page_def toggle_page_def handle_page_click_def
      set_remove_def Let_def)

theorem toggle_flips_witness:
  "toggle_single_page clicked3 1 = Inr (clicked3\<lparr>selected_pages := {}\<rparr>) \<and>
   toggle_single_page clicked3 2 = Inr (clicked3\<lparr>selected_pages := {0, 1}\<rparr>) \<and>
   (\<exists>s'. handle_page_click clicked3 False 2 = Inr s' \<and> last_selected_page s' = 2
      \<and> selected_pages s' = {0, 1})"
  using toggle_flips [of clicked3 1] toggle_flips [of clicked3 2]
  by (auto simp: clicked3_def update_page_spec_field_def)

text \<open>
  C6 as stated fails: in a document of three pages, toggling page 0 or page 7 raises
  nothing and puts the index \<open>- 1\<close> or \<open>6\<close> into the selected set; and toggling
  page 1 through \<open>toggle_page\<close> selects it and leaves the anchor at \<open>- 1\<close>.
\<close>

theorem toggle_out_of_range_counterexample:
  "total_pages loaded3 = 3
   \<and> toggle_single_page loaded3 0 = Inr (loaded3\<lparr>selected_pages := {- 1}\<rparr>)
   \<and> toggle_single_page loaded3 7 = Inr (loaded3\<lparr>selected_pages := {6}\<rparr>)
   \<and> toggle_page loaded3 1 = Inr clicked3
   \<and> selected_pages clicked3 = {0} \<and> last_selected_page clicked3 = - 1"
  by code_simp

lemma thumbnails_range_step: "thumbnails (range_step s p) = thumbnails s"
  by (simp add: range_step_def Let_def)

lemma foldl_range_step:
  "foldl range_step s ps =
     s\<lparr>selected_pages := selected_pages s \<union>
        {p - 1 |p. p \<in> set ps \<and> 1 \<le> p \<and> p \<le> int (length (thumbnails s))}\<rparr>"
proof (induction ps arbitrary: s)
  case Nil
  show ?case by simp
next
  case (Cons q ps)
  have "foldl range_step (range_step s q) ps =
        (range_step s q)\<lparr>selected_pages := selected_pages (range_step s q) \<union>
        {p - 1 |p. p \<in> set ps \<and> 1 \<le> p \<and> p \<le> int (length (thumbnails s))}\<rparr>"
    using Cons.IH [of "range_step s q"] by (simp add: thumbnails_range_step)
  also have "\<dots> = s\<lparr>selected_pages := selected_pages s \<union>
        {p - 1 |p. p \<in> set (q # ps) \<and> 1 \<le> p \<and> p \<le> int (length (thumbnails s))}\<rparr>"
    by (auto simp: range_step_def Let_def
        intro!: arg_cong [where f = "\<lambda>A. s\<lparr>selected_pages := A\<rparr>"])
  finally show ?case by simp
qed

lemma select_page_range_eq:
  "select_page_range s a b =
     s\<lparr>selected_pages := selected_pages s \<union>
        {p - 1 |p. min a b \<le> p \<and> p \<le> max a b \<and> 1 \<le> p
           \<and> p \<le> int (length (thumbnails s))}\<rparr>"
  by (simp add: select_page_range_def Let_def foldl_range_step)

text \<open>
  C7, as the program has it. \<open>select_page_range\<close> has no failing path and changes the
  selected set only: it adds \<open>page - 1\<close> for exactly the pages between the smaller and
  the larger endpoint that lie between 1 and the number of thumbnails, whatever the
  endpoints are; so swapping the endpoints gives the same state.
\<close>

theorem select_page_range_clips:
  "select_page_range s a b =
     s\<lparr>selected_pages := selected_pages s \<union>
        {p - 1 |p. min a b \<le> p \<and> p \<le> max a b \<and> 1 \<le> p
           \<and> p \<le> int (length (thumbnails s))}\<rparr>
   \<and> select_page_range s a b = select_page_range s b a"
  unfolding select_page_range_eq [of s a b] select_page_range_eq [of s b a]
  by (simp add: min.commute max.commute)

theorem select_page_range_clips_witness:
  "selected_pages (select_page_range clicked3 2 5) = {0, 1, 2}
   \<and> select_page_range clicked3 2 5 = select_page_range clicked3 5 2"
proof -
  have "{p - 1 |p. min 2 5 \<le> p \<and> p \<le> max 2 5 \<and> 1 \<le> p
          \<and> p \<le> int (length (thumbnails clicked3))} = {1, 2::int}"
    by (auto simp: clicked3_def)
  with select_page_range_clips [of clicked3 2 5] show ?thesis
    by (auto simp: clicked3_def)
qed

text \<open>
  C7 as stated fails: in a document of 150 pages, page 101 lies between the endpoints
  99 and 102 and within the document, yet its index 100 is not selected.
\<close>

theorem select_page_range_counterexample:
  "total_pages loaded150 = 150 \<and> (101::int) \<in> {min 99 102..max 99 102}
   \<and> (101::int) \<in> {1..int (total_pages loaded150)}
   \<and> 101 - 1 \<notin> selected_pages (select_page_range loaded150 99 102)"
  by code_simp

section \<open>Reachable states\<close>

lemma parse_tokens_bound:
  "parse_tokens acc toks m = Inr pages \<Longrightarrow> finite acc \<Longrightarrow> acc \<subseteq> {0..<m} \<Longrightarrow>
   finite pages \<and> pages \<subseteq> {0..<m}"
proof (induction toks arbitrary: acc)
  case Nil
  then show ?case by simp
next
  case (Cons tok rest)
  show ?case
  proof (cases "strip tok = []")
    case True
    with Cons.prems have "parse_tokens acc rest m = Inr pages" by simp
    from Cons.IH [OF this Cons.prems(2,3)] show ?thesis .
  next
    case False
    note nonempty = this
    show ?thesis
    proof (cases "PAGE_RE_match (strip tok)")
      case True
      with nonempty Cons.prems(1) obtain num where
        num: "1 \<le> num" "num \<le> m" and
        rest: "parse_tokens (insert (num - 1) acc) rest m = Inr pages"
        by (auto simp: Let_def split: sum.splits if_splits)
      from num Cons.prems(2,3) have "finite (insert (num - 1) acc)"
        "insert (num - 1) acc \<subseteq> {0..<m}" by auto
      from Cons.IH [OF rest this] show ?thesis .
    next
      case False
      with nonempty Cons.prems(1) obtain a b where
        ab: "\<not> a < 1" "\<not> m < b" and
        rest: "parse_tokens (acc \<union> {a - 1..<b}) rest m = Inr pages"
        by (auto simp: Let_def split: sum.splits if_splits option.splits)
      from ab Cons.prems(2,3) have "finite (acc \<union> {a - 1..<b})"
        "acc \<union> {a - 1..<b} \<subseteq> {0..<m}" by auto
      from Cons.IH [OF rest this] show ?thesis .
    qed
  qed
qed

lemma parse_pages_bound:
  assumes "parse_pages text m = Inr pages"
  shows "set pages \<subseteq> {0..<m}"
proof (cases "strip text = []")
  case True
  with assms show ?thesis by (simp add: parse_pages_def)
next
  case False
  with assms obtain A where A: "parse_tokens {} (str_split CHR '','' (strip text)) m = Inr A"
    and p: "pages = sorted_list_of_set A"
    by (auto simp: parse_pages_def Let_def split: sum.splits)
  from parse_tokens_bound [OF A] have "finite A" "A \<subseteq> {0..<m}" by auto
  with p show ?thesis by simp
qed

lemma inv_load: "inv (load_pdf_and_thumbnails s f)"
  by (simp add: inv_def load_pdf_and_thumbnails_def cleanup_resources_def total_pages_def Let_def)

lemma inv_toggle:
  assumes "inv s" "1 \<le> p" "p \<le> int (length (thumbnails s))" "toggle_single_page s p = Inr s'"
  shows "inv s'"
  using assms
  by (auto simp: inv_def toggle_single_page_def set_remove_def total_pages_def Let_def subset_iff
      split: if_splits)

lemma inv_update: "inv (update_page_spec_field s) = inv s"
  by (simp add: inv_def update_page_spec_field_def total_pages_def)

lemma inv_range: "inv s \<Longrightarrow> inv (select_page_range s a b)"
  by (auto simp: inv_def select_page_range_eq total_pages_def)

lemma inv_anchor: "inv (s\<lparr>last_selected_page := p\<rparr>) = inv s"
  by (simp add: inv_def total_pages_def)

lemma inv_field: "inv (s\<lparr>page_spec_field := p\<rparr>) = inv s"
  by (simp add: inv_def total_pages_def)

lemma inv_spec_change:
  assumes "inv s" "on_page_spec_change s text = Inr s'"
  shows "inv s'"
proof (cases "thumbnails s = [] \<or> strip text = []")
  case True
  with assms show ?thesis by (simp add: on_page_spec_change_def)
next
  case False
  show ?thesis
  proof (cases "parse_pages text (int (length (thumbnails s)))")
    case (Inl e)
    with False assms show ?thesis by (simp add: on_page_spec_change_def)
  next
    case (Inr pages)
    from parse_pages_bound [OF Inr] Inr False assms show ?thesis
      by (auto simp: on_page_spec_change_def inv_def total_pages_def)
  qed
qed

lemma reachable_inv: "reachable s \<Longrightarrow> inv s"
proof (induction rule: reachable.induct)
  case start
  show ?case by (simp add: inv_def init_app_def total_pages_def)
next
  case (pick s f)
  show ?case by (simp add: select_pdf_def inv_load)
next
  case (card s p s')
  then show ?case
    by (auto simp: toggle_page_def inv_update split: sum.splits dest: inv_toggle)
next
  case (click s p shift s')
  then show ?case
    by (auto simp: handle_page_click_def inv_update inv_anchor split: sum.splits if_splits
        dest: inv_toggle intro: inv_range)
next
  case (select_all s)
  then show ?case
    by (auto simp: select_all_pages_def inv_update) (auto simp: inv_def total_pages_def)
next
  case (deselect_all s)
  then show ?case
    by (auto simp: deselect_all_pages_def inv_update) (auto simp: inv_def total_pages_def)
next
  case (typed s tx s')
  from typed.IH have "inv (s\<lparr>page_spec_field := tx\<rparr>)" by (simp add: inv_field)
  from inv_spec_change [OF this typed.hyps(2)] show ?case .
qed

text \<open>
  C9. Loading a document, whatever was loaded and selected before, leaves the selected
  set empty and the anchor at \<open>- 1\<close> (no anchor), both for \<open>load_pdf_and_thumbnails\<close>
  and for the file-picker callback that calls it; and in every state that the events of
  the user interface can reach, each selected index is at least 0 and below the page
  count of the open document (0 when none is open).
\<close>

theorem load_resets_selection:
  "reachable s \<Longrightarrow>
   selected_pages (load_pdf_and_thumbnails s f) = {}
   \<and> last_selected_page (load_pdf_and_thumbnails s f) = - 1
   \<and> selected_pages (select_pdf s f) = {}
   \<and> last_selected_page (select_pdf s f) = - 1
   \<and> (\<forall>i\<in>selected_pages s. 0 \<le> i \<and> i < int (total_pages s))"
proof -
  assume "reachable s"
  then have "inv s" by (rule reachable_inv)
  then have "\<forall>i\<in>selected_pages s. 0 \<le> i \<and> i < int (total_pages s)"
    by (auto simp: inv_def subset_iff)
  then show ?thesis
    by (simp add: select_pdf_def load_pdf_and_thumbnails_def cleanup_resources_def Let_def)
qed

theorem load_resets_selection_witness:
  "reachable clicked3
   \<and> selected_pages clicked3 = {0}
   \<and> selected_pages (load_pdf_and_thumbnails clicked3 pdf150) = {}
   \<and> last_selected_page (load_pdf_and_thumbnails clicked3 pdf150) = - 1
   \<and> total_pages clicked3 = 3"
  using load_resets_selection [OF reachable_clicked3, of pdf150] reachable_clicked3
  by (simp add: clicked3_def total_pages_def)

text \<open>
  C10, as the program has it. A load that succeeds leaves \<open>min (num_pages f) 100\<close>
  thumbnails. In every reachable state there are at most 100 thumbnails, every selected
  index is an index of a thumbnail (so select-all, clicks and accepted text edits never
  select an index from 100 on), and whatever text the parser accepts with the bound
  that \<open>on_page_spec_change\<close> passes, the number of thumbnails, names indices below 100
  only.
\<close>

theorem selection_capped:
  "reachable s \<Longrightarrow>
   (opens f \<and> \<not> is_encrypted f \<and> rasterizes f \<longrightarrow>
      length (thumbnails (select_pdf s f)) = min (num_pages f) 100
      \<and> total_pages (select_pdf s f) = num_pages f)
   \<and> length (thumbnails s) \<le> 100
   \<and> (\<forall>i\<in>selected_pages s. 0 \<le> i \<and> i < int (length (thumbnails s)) \<and> i < 100)
   \<and> (thumbnails s \<noteq> [] \<longrightarrow>
        selected_pages (select_all_pages s) = {0..<int (length (thumbnails s))})
   \<and> (\<forall>pages. parse_pages spec (int (length (thumbnails s))) = Inr pages \<longrightarrow>
        (\<forall>i\<in>set pages. 0 \<le> i \<and> i < 100))"
proof -
  assume "reachable s"
  then have i: "inv s" by (rule reachable_inv)
  have l: "opens f \<and> \<not> is_encrypted f \<and> rasterizes f \<longrightarrow>
      length (thumbnails (select_pdf s f)) = min (num_pages f) 100
      \<and> total_pages (select_pdf s f) = num_pages f"
    by (simp add: select_pdf_def load_pdf_and_thumbnails_def cleanup_resources_def
        total_pages_def Let_def)
  from i have n: "length (thumbnails s) \<le> 100" by (simp add: inv_def)
  from i n have m: "\<forall>i\<in>selected_pages s. 0 \<le> i \<and> i < int (length (thumbnails s)) \<and> i < 100"
    by (auto simp: inv_def subset_iff)
  have a: "thumbnails s \<noteq> [] \<longrightarrow>
        selected_pages (select_all_pages s) = {0..<int (length (thumbnails s))}"
    by (simp add: select_all_pages_def update_page_spec_field_def)
  have "\<forall>i\<in>set pages. 0 \<le> i \<and> i < 100"
    if "parse_pages spec (int (length (thumbnails s))) = Inr pages" for pages
    using parse_pages_bound [OF that] n by (auto simp: subset_iff)
  with l n m a show ?thesis by blast
qed

theorem selection_capped_witness:
  "reachable (select_all_pages loaded150)
   \<and> length (thumbnails (select_pdf (select_all_pages loaded150) pdf150)) = 100
   \<and> total_pages (select_pdf (select_all_pages loaded150) pdf150) = 150
   \<and> selected_pages (select_all_pages loaded150) = {0..<100}
   \<and> 99 \<in> selected_pages (select_all_pages loaded150)
   \<and> parse_pages ''99-100'' (int (length (thumbnails (select_all_pages loaded150)))) =
       Inr [98, 99]"
proof -
  have r: "reachable (select_all_pages loaded150)"
    by (rule reachable.select_all) (rule reachable_loaded150)
  have n: "length (thumbnails loaded150) = 100"
    by (simp add: loaded150_def select_pdf_def load_pdf_and_thumbnails_def
        clear_thumbnails_def cleanup_resources_def init_app_def pdf150_def Let_def)
  then have t: "thumbnails loaded150 \<noteq> []" by auto
  with n have n': "length (thumbnails (select_all_pages loaded150)) = 100"
    and s: "selected_pages (select_all_pages loaded150) = {0..<100}"
    by (simp_all add: select_all_pages_def update_page_spec_field_def)
  have p: "parse_pages ''99-100'' (int (length (thumbnails (select_all_pages loaded150)))) =
       Inr [98, 99]"
    unfolding n' by code_simp
  have f: "opens pdf150 \<and> \<not> is_encrypted pdf150 \<and> rasterizes pdf150" "num_pages pdf150 = 150"
    by (simp_all add: pdf150_def)
  from selection_capped [OF r, of pdf150 "''99-100''"] r s p f
  show ?thesis by simp
qed

text \<open>
  C10 as stated fails for the validation: in a document of 150 pages the text \<open>101\<close> is
  rejected by the text-field handler, which leaves the state as it is, but the same text
  is accepted by \<open>run_extract\<close>, which checks it against the page count of the
  document and hands the index 100 to the extraction.
\<close>

theorem extract_validates_beyond_cap_counterexample:
  "total_pages loaded150 = 150
   \<and> on_page_spec_change (loaded150\<lparr>page_spec_field := ''101''\<rparr>) ''101'' =
       Inr (loaded150\<lparr>page_spec_field := ''101''\<rparr>)
   \<and> run_extract (loaded150\<lparr>page_spec_field := ''101''\<rparr>) = ExtractPages [100]"
  by code_simp

section \<open>The parser against its specification\<close>

lemma space_not_digit: "isspace c \<Longrightarrow> \<not> isdigit c"
  by (auto simp: isspace_def isdigit_def)

lemma hyphen_not_digit: "\<not> isdigit CHR ''-''"
  by (simp add: isdigit_def)

lemma newline_space: "isspace (CHR 0x0A)"
  by (simp add: isspace_def)

lemma comma_not_space: "\<not> isspace CHR '',''"
  by (simp add: isspace_def)

lemma hyphen_not_space: "\<not> isspace CHR ''-''"
  by (simp add: isspace_def)

lemma dropWhile_keep: "xs \<noteq> [] \<Longrightarrow> \<not> P (hd xs) \<Longrightarrow> dropWhile P xs = xs"
  by (cases xs) simp_all

lemma strip_id:
  assumes "\<forall>c\<in>set s. \<not> isspace c"
  shows "strip s = s"
proof (cases "s = []")
  case True
  then show ?thesis by (simp add: strip_def)
next
  case False
  then have "hd s \<in> set s" "last s \<in> set s" by simp_all
  with assms have h: "\<not> isspace (hd s)" and l: "\<not> isspace (last s)" by blast+
  from False h have 1: "dropWhile isspace s = s" by (rule dropWhile_keep)
  from False l have "dropWhile isspace (rev s) = rev s"
    by (intro dropWhile_keep) (simp_all add: hd_rev)
  with 1 show ?thesis by (simp add: strip_def)
qed

lemma strip_last: "strip s \<noteq> [] \<Longrightarrow> \<not> isspace (last (strip s))"
proof -
  assume "strip s \<noteq> []"
  then have "dropWhile isspace (rev (dropWhile isspace s)) \<noteq> []"
    by (simp add: strip_def)
  from hd_dropWhile [OF this] this show ?thesis
    by (simp add: strip_def last_rev)
qed

lemma strip_Cons_space: "isspace c \<Longrightarrow> strip (c # s) = strip s"
  by (simp add: strip_def)

lemma takeWhile_all: "\<forall>x\<in>set xs. P x \<Longrightarrow> takeWhile P xs = xs"
  by simp

lemma dropWhile_all: "\<forall>x\<in>set xs. P x \<Longrightarrow> dropWhile P xs = []"
  by simp

lemma strip_all_space: "\<forall>c\<in>set s. isspace c \<Longrightarrow> strip s = []"
  by (simp add: strip_def dropWhile_all)

lemma strip_snoc_space:
  assumes "isspace c"
  shows "strip (s @ [c]) = strip s"
proof (cases "\<forall>x\<in>set s. isspace x")
  case True
  with assms have "\<forall>x\<in>set (s @ [c]). isspace x" by simp
  then have "strip (s @ [c]) = []" by (rule strip_all_space)
  with True show ?thesis by (simp add: strip_all_space)
next
  case False
  then have "dropWhile isspace (s @ [c]) = dropWhile isspace s @ [c]"
    by (simp add: dropWhile_append)
  with assms show ?thesis by (simp add: strip_def)
qed

lemma digits_strip: "digits t \<Longrightarrow> strip t = t"
  by (rule strip_id) (auto simp: digits_def list_all_iff dest: space_not_digit)

lemma py_int_digits:
  "digits t \<Longrightarrow>
   py_int t =
     (if int_max_str_digits < length t then Inl (ValueError (ExceedsDigitLimit (length t)))
      else Inr (number t))"
  by (simp add: py_int_def digits_strip number_def) (simp add: digits_def)

lemma PAGE_RE_match_iff:
  assumes "t \<noteq> []" "\<not> isspace (last t)"
  shows "PAGE_RE_match t = digits t"
proof
  assume m: "PAGE_RE_match t"
  have "dropWhile isdigit t \<noteq> [CHR 0x0A]"
  proof
    assume d: "dropWhile isdigit t = [CHR 0x0A]"
    have "t = takeWhile isdigit t @ dropWhile isdigit t" by simp
    with d have "last t = CHR 0x0A" by (metis last_snoc)
    with assms(2) newline_space show False by simp
  qed
  with m have "dropWhile isdigit t = []" by (simp add: PAGE_RE_match_def at_end_def)
  with assms(1) show "digits t"
    by (simp add: digits_def list_all_iff)
next
  assume "digits t"
  then have "t \<noteq> []" "\<forall>c\<in>set t. isdigit c" by (simp_all add: digits_def list_all_iff)
  then show "PAGE_RE_match t"
    by (simp add: PAGE_RE_match_def at_end_def takeWhile_all dropWhile_all)
qed

lemma digits_no_hyphen: "digits a \<Longrightarrow> CHR ''-'' \<notin> set a"
  using hyphen_not_digit by (auto simp: digits_def list_all_iff)

lemma RANGE_RE_match_digits:
  assumes "digits a" "digits b"
  shows "RANGE_RE_match (a @ CHR ''-'' # b) = Some (a, b)"
proof -
  from assms have a: "a \<noteq> []" "\<forall>c\<in>set a. isdigit c" and b: "b \<noteq> []" "\<forall>c\<in>set b. isdigit c"
    by (simp_all add: digits_def list_all_iff)
  from a have "takeWhile isdigit (a @ CHR ''-'' # b) = a"
    "dropWhile isdigit (a @ CHR ''-'' # b) = CHR ''-'' # b"
    by (simp_all add: hyphen_not_digit)
  with a(1) b show ?thesis
    by (simp add: RANGE_RE_match_def at_end_def takeWhile_all dropWhile_all)
qed

lemma RANGE_RE_match_Some:
  assumes "RANGE_RE_match t = Some (a, b)" "t \<noteq> []" "\<not> isspace (last t)"
  shows "t = a @ CHR ''-'' # b \<and> digits a \<and> digits b"
proof -
  from assms(1) obtain r where
    d: "dropWhile isdigit t = CHR ''-'' # r" and a: "a = takeWhile isdigit t" "a \<noteq> []" and
    b: "b = takeWhile isdigit r" "b \<noteq> []" and e: "at_end (dropWhile isdigit r)"
    by (auto simp: RANGE_RE_match_def Let_def split: list.splits if_splits)
  have t: "t = a @ CHR ''-'' # b @ dropWhile isdigit r"
    using a(1) b(1) d takeWhile_dropWhile_id [of isdigit t] takeWhile_dropWhile_id [of isdigit r]
    by simp
  have "dropWhile isdigit r \<noteq> [CHR 0x0A]"
  proof
    assume "dropWhile isdigit r = [CHR 0x0A]"
    with t have "t = (a @ CHR ''-'' # b) @ [CHR 0x0A]" by simp
    then have "last t = CHR 0x0A" by (metis last_snoc)
    with assms(3) newline_space show False by simp
  qed
  with e have "dropWhile isdigit r = []" by (simp add: at_end_def)
  with t have "t = a @ CHR ''-'' # b" by simp
  moreover have "digits a" using a
    by (auto simp: digits_def list_all_iff dest: set_takeWhileD)
  moreover have "digits b" using b
    by (auto simp: digits_def list_all_iff dest: set_takeWhileD)
  ultimately show ?thesis by simp
qed

lemma range_ends_Some: "range_ends t = Some (a, b) \<Longrightarrow> t = a @ CHR ''-'' # b"
proof -
  assume r: "range_ends t = Some (a, b)"
  then have h: "CHR ''-'' \<in> set t" and a: "a = takeWhile (\<lambda>c. c \<noteq> CHR ''-'') t"
    and b: "b = tl (dropWhile (\<lambda>c. c \<noteq> CHR ''-'') t)"
    by (auto simp: range_ends_def split: if_splits)
  from h have n: "dropWhile (\<lambda>c. c \<noteq> CHR ''-'') t \<noteq> []"
    by simp
  from hd_dropWhile [OF n] have "hd (dropWhile (\<lambda>c. c \<noteq> CHR ''-'') t) = CHR ''-''" by simp
  with n b have "dropWhile (\<lambda>c. c \<noteq> CHR ''-'') t = CHR ''-'' # b"
    by (cases "dropWhile (\<lambda>c. c \<noteq> CHR ''-'') t") simp_all
  with a takeWhile_dropWhile_id [of "\<lambda>c. c \<noteq> CHR ''-''" t] show ?thesis by simp
qed

lemma range_ends_digits: "digits a \<Longrightarrow> range_ends (a @ CHR ''-'' # b) = Some (a, b)"
proof -
  assume "digits a"
  then have "\<forall>c\<in>set a. c \<noteq> CHR ''-''" using digits_no_hyphen by blast
  then show ?thesis
    by (simp add: range_ends_def)
qed

lemma digits_hyphen: "\<not> digits (a @ CHR ''-'' # b)"
  using digits_no_hyphen [of "a @ CHR ''-'' # b"] by auto

lemma classify_digits: "digits t \<Longrightarrow> classify t = Single (number t)"
  by (simp add: classify_def)

lemma classify_range:
  "digits a \<Longrightarrow> digits b \<Longrightarrow> classify (a @ CHR ''-'' # b) = Range (number a) (number b)"
  by (simp add: classify_def digits_hyphen range_ends_digits)

lemma classify_Malformed:
  assumes "\<not> digits t" "RANGE_RE_match t = None"
  shows "classify t = Malformed"
proof (cases "range_ends t")
  case None
  with assms(1) show ?thesis by (simp add: classify_def)
next
  case (Some p)
  obtain a b where p: "p = (a, b)" by (cases p)
  from Some p have t: "t = a @ CHR ''-'' # b" by (simp add: range_ends_Some)
  have "\<not> (digits a \<and> digits b)"
  proof
    assume "digits a \<and> digits b"
    with RANGE_RE_match_digits [of a b] t assms(2) show False by simp
  qed
  with Some p assms(1) show ?thesis by (auto simp: classify_def)
qed

lemma numerals_digits: "digits t \<Longrightarrow> numerals t = [t]"
  by (simp add: numerals_def)

lemma numerals_range:
  "digits a \<Longrightarrow> digits b \<Longrightarrow> numerals (a @ CHR ''-'' # b) = [a, b]"
  by (simp add: numerals_def digits_hyphen range_ends_digits)

lemma numerals_Malformed: "classify t = Malformed \<Longrightarrow> numerals t = []"
  by (auto simp: classify_def numerals_def split: if_splits option.splits)

lemma token_failure_digits:
  "digits t \<Longrightarrow>
   token_failure t N =
     (if int_max_str_digits < length t then Some (ExceedsDigitLimit (length t))
      else token_error t N)"
  by (simp add: token_failure_def numerals_digits)

lemma token_failure_range:
  "digits a \<Longrightarrow> digits b \<Longrightarrow>
   token_failure (a @ CHR ''-'' # b) N =
     (if int_max_str_digits < length a then Some (ExceedsDigitLimit (length a))
      else if int_max_str_digits < length b then Some (ExceedsDigitLimit (length b))
      else token_error (a @ CHR ''-'' # b) N)"
  by (simp add: token_failure_def numerals_range)

lemma token_failure_Malformed:
  "classify t = Malformed \<Longrightarrow> token_failure t N = Some (FormatError t)"
  by (simp add: token_failure_def numerals_Malformed token_error_def)

lemma token_failure_None:
  "token_failure t N = None \<longleftrightarrow>
     token_error t N = None \<and> (\<forall>n\<in>set (numerals t). length n \<le> int_max_str_digits)"
proof (cases "filter (\<lambda>n. int_max_str_digits < length n) (numerals t)")
  case Nil
  then have "\<forall>n\<in>set (numerals t). length n \<le> int_max_str_digits"
    by (auto simp: filter_empty_conv not_less)
  with Nil show ?thesis by (simp add: token_failure_def)
next
  case (Cons n ns)
  then have "n \<in> set (filter (\<lambda>n. int_max_str_digits < length n) (numerals t))" by simp
  then have "n \<in> set (numerals t)" "\<not> length n \<le> int_max_str_digits" by simp_all
  then have "\<not> (\<forall>n\<in>set (numerals t). length n \<le> int_max_str_digits)" by blast
  with Cons show ?thesis by (simp add: token_failure_def)
qed

text \<open>One round of the loop, in the vocabulary of the specification.\<close>

lemma parse_tokens_Cons:
  "parse_tokens acc (tok # rest) N =
     (if strip tok = [] then parse_tokens acc rest N
      else (case token_failure (strip tok) N of
              Some m \<Rightarrow> Inl (ValueError m)
            | None \<Rightarrow> parse_tokens (acc \<union> token_indices (strip tok)) rest N))"
proof (cases "strip tok = []")
  case True
  then show ?thesis by simp
next
  case False
  define t where "t = strip tok"
  from False have ne: "t \<noteq> []" and sp: "\<not> isspace (last t)"
    by (simp_all add: t_def strip_last)
  show ?thesis
  proof (cases "digits t")
    case True
    with ne sp have "PAGE_RE_match t" by (simp add: PAGE_RE_match_iff)
    with True ne show ?thesis
      by (simp add: t_def [symmetric] py_int_digits token_failure_digits token_error_def
          token_indices_def classify_digits Let_def)
  next
    case nd: False
    with ne sp have np: "\<not> PAGE_RE_match t" by (simp add: PAGE_RE_match_iff)
    show ?thesis
    proof (cases "RANGE_RE_match t")
      case None
      with nd have "classify t = Malformed" by (rule classify_Malformed)
      then have "token_failure t N = Some (FormatError t)" by (rule token_failure_Malformed)
      with None np ne show ?thesis
        by (simp add: t_def [symmetric] Let_def)
    next
      case (Some p)
      obtain a b where p: "p = (a, b)" by (cases p)
      from RANGE_RE_match_Some [OF Some [unfolded p] ne sp]
      have t: "t = a @ CHR ''-'' # b" and a: "digits a" and b: "digits b" by simp_all
      from a b have c: "classify t = Range (number a) (number b)"
        unfolding t by (rule classify_range)
      from a b have f: "token_failure t N =
          (if int_max_str_digits < length a then Some (ExceedsDigitLimit (length a))
           else if int_max_str_digits < length b then Some (ExceedsDigitLimit (length b))
           else token_error t N)"
        unfolding t by (rule token_failure_range)
      have "{number a - 1..<number b} = {number a - 1..number b - 1}" by auto
      with Some p np ne a b c f show ?thesis
        by (simp add: t_def [symmetric] token_error_def token_indices_def Let_def
            py_int_digits)
    qed
  qed
qed

lemma parse_tokens_eq:
  "parse_tokens acc toks N =
     (case first_failure (filter (\<lambda>t. t \<noteq> []) (map strip toks)) N of
        Some m \<Rightarrow> Inl (ValueError m)
      | None \<Rightarrow>
          Inr (acc \<union> (\<Union>t\<in>set (filter (\<lambda>t. t \<noteq> []) (map strip toks)). token_indices t)))"
proof (induction toks arbitrary: acc)
  case Nil
  show ?case by simp
next
  case (Cons tok rest)
  show ?case
    unfolding parse_tokens_Cons
    by (auto simp: Cons.IH split: option.splits)
qed

lemma str_split_nonempty: "str_split sep s \<noteq> []"
  by (induction s) (auto split: list.splits)

lemma str_split_Cons:
  "c \<noteq> sep \<Longrightarrow> str_split sep (c # s) = (c # hd (str_split sep s)) # tl (str_split sep s)"
  using str_split_nonempty [of sep s] by (cases "str_split sep s") simp_all

lemma str_split_snoc:
  "c \<noteq> sep \<Longrightarrow>
   str_split sep (s @ [c]) = butlast (str_split sep s) @ [last (str_split sep s) @ [c]]"
proof (induction s)
  case Nil
  then show ?case by simp
next
  case (Cons x s)
  obtain p ps where ps: "str_split sep s = p # ps"
    using str_split_nonempty [of sep s] by (cases "str_split sep s") auto
  obtain q qs where qs: "str_split sep (s @ [c]) = q # qs"
    using str_split_nonempty [of sep "s @ [c]"] by (cases "str_split sep (s @ [c])") auto
  from Cons ps qs show ?case by (auto split: if_splits)
qed

lemma tokens_Cons_space:
  assumes "isspace c"
  shows "tokens (c # s) = tokens s"
proof -
  from assms comma_not_space have "c \<noteq> CHR '',''" by auto
  then have "str_split CHR '','' (c # s) =
      (c # hd (str_split CHR '','' s)) # tl (str_split CHR '','' s)"
    by (rule str_split_Cons)
  moreover have "str_split CHR '','' s = hd (str_split CHR '','' s) # tl (str_split CHR '','' s)"
    using str_split_nonempty [of "CHR '',''" s] by simp
  ultimately have "map strip (str_split CHR '','' (c # s)) = map strip (str_split CHR '','' s)"
    using assms by (metis list.simps(9) strip_Cons_space)
  then show ?thesis by (simp add: tokens_def)
qed

lemma tokens_snoc_space:
  assumes "isspace c"
  shows "tokens (s @ [c]) = tokens s"
proof -
  let ?ps = "str_split CHR '','' s"
  from assms comma_not_space have "c \<noteq> CHR '',''" by auto
  then have "map strip (str_split CHR '','' (s @ [c])) =
      map strip (butlast ?ps) @ [strip (last ?ps @ [c])]"
    by (simp add: str_split_snoc)
  also have "\<dots> = map strip (butlast ?ps) @ [strip (last ?ps)]"
    using assms by (simp add: strip_snoc_space)
  also have "\<dots> = map strip (butlast ?ps @ [last ?ps])" by simp
  also have "\<dots> = map strip ?ps" using str_split_nonempty [of "CHR '',''" s] by simp
  finally show ?thesis by (simp add: tokens_def)
qed

lemma tokens_dropWhile: "tokens (dropWhile isspace s) = tokens s"
  by (induction s) (simp_all add: tokens_Cons_space)

lemma tokens_rev_dropWhile: "tokens (rev (dropWhile isspace (rev s))) = tokens s"
  by (induction s rule: rev_induct) (simp_all add: tokens_snoc_space)

lemma tokens_strip: "tokens (strip s) = tokens s"
  by (simp add: strip_def tokens_rev_dropWhile tokens_dropWhile)

lemma tokens_Nil: "tokens [] = []"
  by (simp add: tokens_def strip_def)

lemma tokens_blank: "strip s = [] \<Longrightarrow> tokens s = []"
  using tokens_strip [of s] by (simp add: tokens_Nil)

lemma parse_pages_eq:
  "parse_pages spec N =
     (case first_failure (tokens spec) N of
        Some m \<Rightarrow> Inl (ValueError m)
      | None \<Rightarrow> Inr (sorted_list_of_set (\<Union>t\<in>set (tokens spec). token_indices t)))"
proof (cases "strip spec = []")
  case True
  then show ?thesis by (simp add: parse_pages_def tokens_blank)
next
  case False
  have "tokens (strip spec) = tokens spec" by (rule tokens_strip)
  then have "filter (\<lambda>t. t \<noteq> []) (map strip (str_split CHR '','' (strip spec))) = tokens spec"
    by (simp add: tokens_def)
  with False show ?thesis
    by (simp add: parse_pages_def parse_tokens_eq split: option.splits)
qed

lemma first_failure_None:
  "first_failure ts N = None \<longleftrightarrow> (\<forall>t\<in>set ts. token_failure t N = None)"
  by (induction ts) (auto split: option.splits)

lemma finite_token_indices: "finite (token_indices t)"
  by (simp add: token_indices_def split: token_kind.splits)

text \<open>
  C1, as the program has it. When every token of the text is valid for the bound and
  has no numeral of more digits than the limit of \<open>int()\<close>, \<open>parse_pages\<close> succeeds:
  the list it returns is strictly ascending, hence without duplicates, and its elements
  are exactly the indices that the tokens contribute, a token being a trimmed, non-empty
  piece between commas. A number \<open>n\<close> contributes \<open>n - 1\<close>, a range \<open>a-b\<close> every index
  from \<open>a - 1\<close> to \<open>b - 1\<close>. This holds for every bound, not only for the non-negative
  ones. The two examples of the specification are evaluated.
\<close>

theorem parse_pages_accumulates:
  "\<forall>t\<in>set (tokens spec). token_error t maxPage = None
      \<and> (\<forall>n\<in>set (numerals t). length n \<le> int_max_str_digits) \<Longrightarrow>
   (\<exists>pages. parse_pages spec maxPage = Inr pages
      \<and> sorted_wrt (<) pages
      \<and> set pages = (\<Union>t\<in>set (tokens spec). token_indices t))
   \<and> (digits t \<longrightarrow> token_indices t = {number t - 1})
   \<and> (digits a \<and> digits b \<longrightarrow>
        token_indices (a @ ''-'' @ b) = {number a - 1..number b - 1})
   \<and> parse_pages ''1,3-5'' 5 = Inr [0, 2, 3, 4]
   \<and> parse_pages ''2,2,1-3'' 5 = Inr [0, 1, 2]"
proof -
  assume "\<forall>t\<in>set (tokens spec). token_error t maxPage = None
      \<and> (\<forall>n\<in>set (numerals t). length n \<le> int_max_str_digits)"
  then have "\<forall>t\<in>set (tokens spec). token_failure t maxPage = None"
    by (simp add: token_failure_None)
  then have "first_failure (tokens spec) maxPage = None" by (simp add: first_failure_None)
  then have p: "parse_pages spec maxPage =
      Inr (sorted_list_of_set (\<Union>t\<in>set (tokens spec). token_indices t))"
    by (simp add: parse_pages_eq)
  have "finite (\<Union>t\<in>set (tokens spec). token_indices t)"
    by (simp add: finite_token_indices)
  with p have 1: "\<exists>pages. parse_pages spec maxPage = Inr pages
      \<and> sorted_wrt (<) pages
      \<and> set pages = (\<Union>t\<in>set (tokens spec). token_indices t)"
    by (simp add: strict_sorted_list_of_set)
  have 2: "digits t \<longrightarrow> token_indices t = {number t - 1}"
    by (simp add: token_indices_def classify_digits)
  have 3: "digits a \<and> digits b \<longrightarrow>
        token_indices (a @ ''-'' @ b) = {number a - 1..number b - 1}"
    by (simp add: token_indices_def classify_range)
  have 4: "parse_pages ''1,3-5'' 5 = Inr [0, 2, 3, 4]" by code_simp
  have 5: "parse_pages ''2,2,1-3'' 5 = Inr [0, 1, 2]" by code_simp
  from 1 2 3 4 5 show ?thesis by blast
qed

lemma tokens_example: "tokens '' 7, 2-3 ,,2'' = [''7'', ''2-3'', ''2'']"
  by code_simp

theorem parse_pages_accumulates_witness:
  "tokens '' 7, 2-3 ,,2'' = [''7'', ''2-3'', ''2'']
   \<and> token_error ''7'' 9 = None \<and> token_error ''2-3'' 9 = None \<and> token_error ''2'' 9 = None
   \<and> numerals ''7'' = [''7''] \<and> numerals ''2-3'' = [''2'', ''3''] \<and> numerals ''2'' = [''2'']
   \<and> digits ''7'' \<and> digits ''2'' \<and> digits ''3''
   \<and> token_indices ''7'' = {6} \<and> token_indices ''2-3'' = {1..2}
   \<and> parse_pages '' 7, 2-3 ,,2'' 9 = Inr [1, 2, 6]"
proof -
  have e: "token_error ''7'' 9 = None" "token_error ''2-3'' 9 = None" "token_error ''2'' 9 = None"
    by code_simp+
  have m: "numerals ''7'' = [''7'']" "numerals ''2-3'' = [''2'', ''3'']"
    "numerals ''2'' = [''2'']"
    by code_simp+
  from e m have h: "\<forall>t\<in>set (tokens '' 7, 2-3 ,,2''). token_error t 9 = None
      \<and> (\<forall>n\<in>set (numerals t). length n \<le> int_max_str_digits)"
    by (simp add: tokens_example int_max_str_digits_def)
  have d: "digits ''7''" "digits ''2''" "digits ''3''" by code_simp+
  have n: "number ''7'' = 7" "number ''2'' = 2" "number ''3'' = 3" by code_simp+
  have r: "parse_pages '' 7, 2-3 ,,2'' 9 = Inr [1, 2, 6]" by code_simp
  from parse_pages_accumulates [OF h, of "''7''" "''2''" "''3''"] e m d n r tokens_example
  show ?thesis by simp
qed

text \<open>
  C2, as the program has it. \<open>parse_pages\<close> fails exactly when some token fails, and
  then with the failure of the first such token; otherwise it returns a list. A token
  fails when it is in error by the specification or has a numeral of more digits than
  the limit of \<open>int()\<close>. A number over the limit fails in the conversion; otherwise it
  is in error exactly when it is below 1 or above the bound. A range with a numeral
  over the limit fails in the conversion, the first numeral first; otherwise it is in
  error when it starts after its end or else when it starts below 1 or ends above the
  bound. A token of neither grammar is in error with the format error that carries the
  token. The program raises \<open>ValueError\<close> in every case; the error kinds of the
  specification are told apart by the message.
\<close>

theorem parse_pages_fails_exactly:
  "(case first_failure (tokens spec) maxPage of
      Some m \<Rightarrow> parse_pages spec maxPage = Inl (ValueError m)
    | None \<Rightarrow> (\<exists>pages. parse_pages spec maxPage = Inr pages))
   \<and> ((\<exists>e. parse_pages spec maxPage = Inl e) \<longleftrightarrow>
        (\<exists>t\<in>set (tokens spec). token_error t maxPage \<noteq> None
           \<or> (\<exists>n\<in>set (numerals t). int_max_str_digits < length n)))
   \<and> (digits t \<longrightarrow>
        token_failure t maxPage =
          (if int_max_str_digits < length t then Some (ExceedsDigitLimit (length t))
           else if number t < 1 \<or> number t > maxPage
           then Some (PageOutOfRange (number t) maxPage) else None))
   \<and> (digits a \<and> digits b \<longrightarrow>
        token_failure (a @ ''-'' @ b) maxPage =
          (if int_max_str_digits < length a then Some (ExceedsDigitLimit (length a))
           else if int_max_str_digits < length b then Some (ExceedsDigitLimit (length b))
           else if number a > number b then Some (RangeStartAfterEnd (a @ ''-'' @ b))
           else if number a < 1 \<or> number b > maxPage
           then Some (RangeOutOfRange (a @ ''-'' @ b) maxPage) else None))
   \<and> (\<not> digits t \<and> (\<forall>a b. t = a @ ''-'' @ b \<longrightarrow> \<not> (digits a \<and> digits b)) \<longrightarrow>
        token_failure t maxPage = Some (FormatError t))"
proof -
  have 1: "(case first_failure (tokens spec) maxPage of
      Some m \<Rightarrow> parse_pages spec maxPage = Inl (ValueError m)
    | None \<Rightarrow> (\<exists>pages. parse_pages spec maxPage = Inr pages))"
    by (simp add: parse_pages_eq split: option.splits)
  have "(\<exists>e. parse_pages spec maxPage = Inl e) \<longleftrightarrow>
        (\<exists>t\<in>set (tokens spec). token_failure t maxPage \<noteq> None)"
    using first_failure_None [of "tokens spec" maxPage]
    by (auto simp: parse_pages_eq split: option.splits)
  also have "\<dots> \<longleftrightarrow> (\<exists>t\<in>set (tokens spec). token_error t maxPage \<noteq> None
           \<or> (\<exists>n\<in>set (numerals t). int_max_str_digits < length n))"
    unfolding token_failure_None by (simp add: not_le)
  finally have 2: "(\<exists>e. parse_pages spec maxPage = Inl e) \<longleftrightarrow>
        (\<exists>t\<in>set (tokens spec). token_error t maxPage \<noteq> None
           \<or> (\<exists>n\<in>set (numerals t). int_max_str_digits < length n))" .
  have 3: "digits t \<longrightarrow>
        token_failure t maxPage =
          (if int_max_str_digits < length t then Some (ExceedsDigitLimit (length t))
           else if number t < 1 \<or> number t > maxPage
           then Some (PageOutOfRange (number t) maxPage) else None)"
    by (simp add: token_failure_digits token_error_def classify_digits)
  have 4: "digits a \<and> digits b \<longrightarrow>
        token_failure (a @ ''-'' @ b) maxPage =
          (if int_max_str_digits < length a then Some (ExceedsDigitLimit (length a))
           else if int_max_str_digits < length b then Some (ExceedsDigitLimit (length b))
           else if number a > number b then Some (RangeStartAfterEnd (a @ ''-'' @ b))
           else if number a < 1 \<or> number b > maxPage
           then Some (RangeOutOfRange (a @ ''-'' @ b) maxPage) else None)"
    by (simp add: token_failure_range token_error_def classify_range)
  have 5: "\<not> digits t \<and> (\<forall>a b. t = a @ ''-'' @ b \<longrightarrow> \<not> (digits a \<and> digits b)) \<longrightarrow>
        token_failure t maxPage = Some (FormatError t)"
  proof (intro impI, elim conjE)
    assume nd: "\<not> digits t" and nr: "\<forall>a b. t = a @ ''-'' @ b \<longrightarrow> \<not> (digits a \<and> digits b)"
    have "classify t = Malformed"
    proof (cases "range_ends t")
      case None
      with nd show ?thesis by (simp add: classify_def)
    next
      case (Some p)
      obtain x y where p: "p = (x, y)" by (cases p)
      from Some p have "t = x @ ''-'' @ y" by (simp add: range_ends_Some)
      with nr have "\<not> (digits x \<and> digits y)" by blast
      with Some p nd show ?thesis by (auto simp: classify_def)
    qed
    then show "token_failure t maxPage = Some (FormatError t)"
      by (rule token_failure_Malformed)
  qed
  from 1 2 3 4 5 show ?thesis by blast
qed

theorem parse_pages_fails_exactly_witness:
  "first_failure (tokens ''1, 2-x ,9'') 5 = Some (FormatError ''2-x'')
   \<and> parse_pages ''1, 2-x ,9'' 5 = Inl (ValueError (FormatError ''2-x''))
   \<and> first_failure (tokens ''1,3-2'') 5 = Some (RangeStartAfterEnd ''3-2'')
   \<and> parse_pages ''1,3-2'' 5 = Inl (ValueError (RangeStartAfterEnd ''3-2''))
   \<and> parse_pages ''0'' 5 = Inl (ValueError (PageOutOfRange 0 5))
   \<and> parse_pages ''6'' 5 = Inl (ValueError (PageOutOfRange 6 5))
   \<and> parse_pages ''2-6'' 5 = Inl (ValueError (RangeOutOfRange ''2-6'' 5))
   \<and> first_failure (tokens ''1,3-5'') 5 = None
   \<and> parse_pages ''1,3-5'' 5 = Inr [0, 2, 3, 4]
   \<and> digits ''6'' \<and> token_failure ''6'' 5 = Some (PageOutOfRange 6 5)
   \<and> digits ''3'' \<and> digits ''2''
   \<and> token_failure ''3-2'' 5 = Some (RangeStartAfterEnd ''3-2'')
   \<and> \<not> digits ''abc'' \<and> token_failure ''abc'' 5 = Some (FormatError ''abc'')"
proof -
  have f: "first_failure (tokens ''1, 2-x ,9'') 5 = Some (FormatError ''2-x'')"
    "first_failure (tokens ''1,3-2'') 5 = Some (RangeStartAfterEnd ''3-2'')"
    "first_failure (tokens ''0'') 5 = Some (PageOutOfRange 0 5)"
    "first_failure (tokens ''6'') 5 = Some (PageOutOfRange 6 5)"
    "first_failure (tokens ''2-6'') 5 = Some (RangeOutOfRange ''2-6'' 5)"
    "first_failure (tokens ''1,3-5'') 5 = None"
    by code_simp+
  have p: "parse_pages ''1,3-5'' 5 = Inr [0, 2, 3, 4]" by code_simp
  have d: "digits ''6''" "digits ''3''" "digits ''2''" "\<not> digits ''abc''" by code_simp+
  have n: "number ''6'' = 6" "number ''3'' = 3" "number ''2'' = 2" by code_simp+
  have l: "\<not> int_max_str_digits < length ''6''" "\<not> int_max_str_digits < length ''3''"
    "\<not> int_max_str_digits < length ''2''"
    by (simp_all add: int_max_str_digits_def)
  have g: "\<forall>a b. ''abc'' = a @ ''-'' @ b \<longrightarrow> \<not> (digits a \<and> digits b)"
  proof (intro allI impI)
    fix a b :: string
    assume "''abc'' = a @ ''-'' @ b"
    then have "set ''abc'' = set (a @ ''-'' @ b)" by (rule arg_cong)
    then have "CHR ''-'' \<in> set ''abc''" by simp
    then show "\<not> (digits a \<and> digits b)" by simp
  qed
  from parse_pages_fails_exactly [of "''1, 2-x ,9''" 5 "''6''" "''3''" "''2''"]
    parse_pages_fails_exactly [of "''1,3-2''" 5 "''abc''" "''3''" "''2''"]
    parse_pages_fails_exactly [of "''0''" 5]
    parse_pages_fails_exactly [of "''6''" 5]
    parse_pages_fails_exactly [of "''2-6''" 5]
    parse_pages_fails_exactly [of "''1,3-5''" 5] f p d n l g
  show ?thesis by simp
qed

section \<open>The serializer against its specification\<close>

lemma ranges_loop_acc:
  "ranges_loop acc start prev rest = acc @ ranges_loop [] start prev rest"
proof (induction rest arbitrary: acc start prev)
  case Nil
  show ?case by simp
next
  case (Cons page rest)
  show ?case
  proof (cases "page = prev + 1")
    case True
    with Cons.IH [of acc start page] show ?thesis by simp
  next
    case False
    with Cons.IH [of "acc @ [(start, prev)]" page page] Cons.IH [of "[(start, prev)]" page page]
    show ?thesis by simp
  qed
qed

lemma separated_Cons:
  "separated (r # rs) \<longleftrightarrow>
     fst r \<le> snd r \<and> (rs = [] \<or> (snd r + 1 < fst (hd rs) \<and> separated rs))"
  by (cases r; cases rs) auto

lemma cover_Nil: "cover [] = {}"
  by (simp add: cover_def)

lemma cover_Cons: "cover (r # rs) = {fst r..snd r} \<union> cover rs"
  by (simp add: cover_def)

lemma ranges_loop_canonical:
  assumes "start \<le> prev" "sorted_wrt (<) (prev # rest)"
  shows "separated (ranges_loop [] start prev rest)
    \<and> cover (ranges_loop [] start prev rest) = {start..prev} \<union> set rest
    \<and> ranges_loop [] start prev rest \<noteq> []
    \<and> fst (hd (ranges_loop [] start prev rest)) = start"
  using assms
proof (induction rest arbitrary: start prev)
  case Nil
  then show ?case by (simp add: cover_Cons cover_Nil)
next
  case (Cons page rest)
  from Cons.prems have lt: "prev < page" and srt: "sorted_wrt (<) (page # rest)" by auto
  show ?case
  proof (cases "page = prev + 1")
    case True
    from Cons.prems lt have "start \<le> page" by simp
    note IH = Cons.IH [OF this srt]
    from True have eq: "ranges_loop [] start prev (page # rest) = ranges_loop [] start page rest"
      by simp
    from True Cons.prems(1) have "{start..page} = insert page {start..prev}" by auto
    with IH show ?thesis unfolding eq by simp
  next
    case False
    let ?R = "ranges_loop [] page page rest"
    have "page \<le> page" by simp
    from Cons.IH [OF this srt]
    have R: "separated ?R" "cover ?R = {page..page} \<union> set rest" "?R \<noteq> []" "fst (hd ?R) = page"
      by simp_all
    have eq: "ranges_loop [] start prev (page # rest) = (start, prev) # ?R"
      using False ranges_loop_acc [of "[(start, prev)]" page page rest] by simp
    from False lt have "prev + 1 < page" by simp
    with R Cons.prems(1) have "separated ((start, prev) # ?R)"
      by (simp add: separated_Cons)
    moreover from R(2) have "cover ((start, prev) # ?R) = {start..prev} \<union> set (page # rest)"
      by (simp add: cover_Cons)
    ultimately show ?thesis unfolding eq by simp
  qed
qed

lemma separated_above:
  "separated (r # rs) \<Longrightarrow> x \<in> cover rs \<Longrightarrow> snd r + 1 < x"
proof (induction rs arbitrary: r)
  case Nil
  then show ?case by (simp add: cover_Nil)
next
  case (Cons q rs)
  from Cons.prems(1) have q: "fst q \<le> snd q" "snd r + 1 < fst q" "separated (q # rs)"
    by (auto simp: separated_Cons)
  from Cons.prems(2) consider "x \<in> {fst q..snd q}" | "x \<in> cover rs"
    by (auto simp: cover_Cons)
  then show ?case
  proof cases
    case 1
    with q show ?thesis by simp
  next
    case 2
    from Cons.IH [OF q(3) 2] q show ?thesis by simp
  qed
qed

lemma separated_tail: "separated (r # rs) \<Longrightarrow> separated rs"
  by (cases rs) (auto simp: separated_Cons)

lemma separated_unique:
  "separated rs \<Longrightarrow> separated rs' \<Longrightarrow> cover rs = cover rs' \<Longrightarrow> rs = rs'"
proof (induction rs arbitrary: rs')
  case Nil
  show ?case
  proof (cases rs')
    case Nil
    then show ?thesis by simp
  next
    case (Cons q qs)
    with Nil.prems(2) have "fst q \<in> cover rs'" by (auto simp: separated_Cons cover_Cons)
    with Nil.prems(3) show ?thesis by (simp add: cover_Nil)
  qed
next
  case (Cons r rs)
  from Cons.prems(1) have r: "fst r \<le> snd r" by (simp add: separated_Cons)
  then have "fst r \<in> cover (r # rs)" by (simp add: cover_Cons)
  with Cons.prems(3) have "cover rs' \<noteq> {}" by auto
  then obtain q qs where rs': "rs' = q # qs" by (cases rs') (auto simp: cover_Nil)
  from Cons.prems(2) rs' have q: "fst q \<le> snd q" by (simp add: separated_Cons)
  note above_r = separated_above [OF Cons.prems(1)]
  note above_q = separated_above [OF Cons.prems(2) [unfolded rs']]
  have cov: "{fst r..snd r} \<union> cover rs = {fst q..snd q} \<union> cover qs"
    using Cons.prems(3) rs' by (simp add: cover_Cons)
  have f1: "fst q \<le> fst r"
  proof -
    from r cov have "fst r \<in> {fst q..snd q} \<union> cover qs" by auto
    then consider "fst r \<in> {fst q..snd q}" | "fst r \<in> cover qs" by blast
    then show ?thesis
    proof cases
      case 1
      then show ?thesis by simp
    next
      case 2
      from above_q [OF 2] q show ?thesis by simp
    qed
  qed
  have f2: "fst r \<le> fst q"
  proof -
    from q cov have "fst q \<in> {fst r..snd r} \<union> cover rs" by auto
    then consider "fst q \<in> {fst r..snd r}" | "fst q \<in> cover rs" by blast
    then show ?thesis
    proof cases
      case 1
      then show ?thesis by simp
    next
      case 2
      from above_r [OF 2] r show ?thesis by simp
    qed
  qed
  have s1: "snd q \<le> snd r"
  proof (rule ccontr)
    assume "\<not> snd q \<le> snd r"
    with f1 f2 r have "snd r + 1 \<in> {fst q..snd q}" by simp
    with cov have "snd r + 1 \<in> {fst r..snd r} \<union> cover rs" by blast
    then have "snd r + 1 \<in> cover rs" by simp
    from above_r [OF this] show False by simp
  qed
  have s2: "snd r \<le> snd q"
  proof (rule ccontr)
    assume "\<not> snd r \<le> snd q"
    with f1 f2 q have "snd q + 1 \<in> {fst r..snd r}" by simp
    with cov have "snd q + 1 \<in> {fst q..snd q} \<union> cover qs" by blast
    then have "snd q + 1 \<in> cover qs" by simp
    from above_q [OF this] show False by simp
  qed
  from f1 f2 s1 s2 have rq: "r = q" by (simp add: prod_eq_iff)
  have "cover rs = cover qs"
  proof -
    have dr: "cover rs \<inter> {fst r..snd r} = {}"
    proof (rule ccontr)
      assume "cover rs \<inter> {fst r..snd r} \<noteq> {}"
      then obtain x where "x \<in> cover rs" "x \<le> snd r" by auto
      with above_r [of x] show False by simp
    qed
    have dq: "cover qs \<inter> {fst q..snd q} = {}"
    proof (rule ccontr)
      assume "cover qs \<inter> {fst q..snd q} \<noteq> {}"
      then obtain x where "x \<in> cover qs" "x \<le> snd q" by auto
      with above_q [of x] show False by simp
    qed
    from dr have "cover rs = ({fst r..snd r} \<union> cover rs) - {fst r..snd r}" by blast
    also have "\<dots> = ({fst q..snd q} \<union> cover qs) - {fst q..snd q}"
      using cov rq by simp
    also from dq have "\<dots> = cover qs" by blast
    finally show ?thesis .
  qed
  from Cons.IH [OF separated_tail [OF Cons.prems(1)]
      separated_tail [OF Cons.prems(2) [unfolded rs']] this] rq rs'
  show ?case by simp
qed

lemma spec_text_runs:
  assumes "finite S"
  shows "\<exists>rs. canonical_runs rs ((\<lambda>p. p + 1) ` S)
     \<and> spec_text S = str_join '','' (map spec_part rs)"
proof (cases "S = {}")
  case True
  then have "canonical_runs [] ((\<lambda>p. p + 1) ` S)" "spec_text S = str_join '','' (map spec_part [])"
    by (simp_all add: canonical_runs_def cover_Nil spec_text_def)
  then show ?thesis by blast
next
  case False
  let ?P = "(\<lambda>p. p + 1) ` S"
  from assms False have fP: "finite ?P" "?P \<noteq> {}" by simp_all
  then have "sorted_list_of_set ?P \<noteq> []" by simp
  then obtain first others where l: "sorted_list_of_set ?P = first # others"
    by (cases "sorted_list_of_set ?P") auto
  have "sorted_wrt (<) (sorted_list_of_set ?P)" by (rule strict_sorted_list_of_set)
  with l have srt: "sorted_wrt (<) (first # others)" by simp
  have "set (sorted_list_of_set ?P) = ?P" using fP by simp
  with l have set: "insert first (set others) = ?P" by simp
  have "first \<le> first" by simp
  from ranges_loop_canonical [OF this srt] set
  have "canonical_runs (ranges_loop [] first first others) ?P"
    by (auto simp: canonical_runs_def)
  moreover from False l
  have "spec_text S = str_join '','' (map spec_part (ranges_loop [] first first others))"
    by (simp add: spec_text_def)
  ultimately show ?thesis by blast
qed

lemma canonical_runs_unique:
  "canonical_runs rs P \<Longrightarrow> canonical_runs rs' P \<Longrightarrow> rs = rs'"
  by (auto simp: canonical_runs_def intro: separated_unique)

text \<open>
  C3. For a finite set of indices the text of \<open>update_page_spec_field\<close> is the
  canonical form of the set. The pages, that is the indices plus one, have exactly one
  list of runs that is ascending, covers the pages and leaves a gap between every run
  and the next, so that the runs are maximal; the text is that list printed, a run
  \<open>(a, a)\<close> as the numeral of \<open>a\<close> and a longer run \<open>(a, b)\<close> as the two numerals
  around a hyphen, with commas between the runs. The empty set gives the empty text,
  and the examples of the specification are evaluated.
\<close>

theorem spec_text_canonical:
  "finite S \<Longrightarrow>
   (\<exists>rs. canonical_runs rs ((\<lambda>p. p + 1) ` S))
   \<and> (\<forall>rs. canonical_runs rs ((\<lambda>p. p + 1) ` S) \<longrightarrow>
          spec_text S = str_join '','' (map spec_part rs))
   \<and> (\<forall>rs rs'. canonical_runs rs ((\<lambda>p. p + 1) ` S)
          \<and> canonical_runs rs' ((\<lambda>p. p + 1) ` S) \<longrightarrow> rs = rs')
   \<and> spec_part (a, a) = str_int a
   \<and> (a \<noteq> b \<longrightarrow> spec_part (a, b) = str_int a @ ''-'' @ str_int b)
   \<and> spec_text {} = []
   \<and> spec_text {0, 1, 2, 4, 6, 7} = ''1-3,5,7-8''
   \<and> spec_text {0, 1, 2, 4} = ''1-3,5''
   \<and> spec_text {0, 1, 2, 4} \<noteq> ''1,2,3,5''"
proof -
  assume "finite S"
  from spec_text_runs [OF this] obtain rs0 where
    rs0: "canonical_runs rs0 ((\<lambda>p. p + 1) ` S)"
      "spec_text S = str_join '','' (map spec_part rs0)"
    by blast
  from rs0(1) have 1: "\<exists>rs. canonical_runs rs ((\<lambda>p. p + 1) ` S)" by blast
  have 2: "\<forall>rs. canonical_runs rs ((\<lambda>p. p + 1) ` S) \<longrightarrow>
          spec_text S = str_join '','' (map spec_part rs)"
    using rs0 canonical_runs_unique by blast
  have 3: "\<forall>rs rs'. canonical_runs rs ((\<lambda>p. p + 1) ` S)
          \<and> canonical_runs rs' ((\<lambda>p. p + 1) ` S) \<longrightarrow> rs = rs'"
    using canonical_runs_unique by blast
  have 4: "spec_part (a, a) = str_int a"
    "a \<noteq> b \<longrightarrow> spec_part (a, b) = str_int a @ ''-'' @ str_int b"
    by (simp_all add: spec_part_def)
  have 5: "spec_text {} = []" by (simp add: spec_text_def)
  have 6: "spec_text {0, 1, 2, 4, 6, 7} = ''1-3,5,7-8''" by code_simp
  have 7: "spec_text {0, 1, 2, 4} = ''1-3,5''" by code_simp
  have 8: "spec_text {0, 1, 2, 4} \<noteq> ''1,2,3,5''" unfolding 7 by simp
  from 1 2 3 4 5 6 7 8 show ?thesis by blast
qed

theorem spec_text_canonical_witness:
  "finite {0, 1, 2, 4 :: int}
   \<and> canonical_runs [(1, 3), (5, 5)] ((\<lambda>p. p + 1) ` {0, 1, 2, 4})
   \<and> spec_text {0, 1, 2, 4} = str_join '','' (map spec_part [(1, 3), (5, 5)])
   \<and> str_join '','' (map spec_part [(1, 3), (5, 5)]) = ''1-3,5''
   \<and> spec_part (1, 3) = str_int 1 @ ''-'' @ str_int 3"
proof -
  have f: "finite {0, 1, 2, 4 :: int}" by simp
  have "cover [(1, 3), (5, 5)] = (\<lambda>p. p + 1) ` {0, 1, 2, 4}"
    by (auto simp: cover_def)
  then have c: "canonical_runs [(1, 3), (5, 5)] ((\<lambda>p. p + 1) ` {0, 1, 2, 4})"
    by (simp add: canonical_runs_def)
  have j: "str_join '','' (map spec_part [(1, 3), (5, 5)]) = ''1-3,5''" by code_simp
  from spec_text_canonical [OF f, of 1 3] f c j show ?thesis by simp
qed

section \<open>Round trip\<close>






lemma digits_plain: "digits t \<Longrightarrow> c \<in> set t \<Longrightarrow> \<not> isspace c \<and> c \<noteq> CHR '',''"
proof -
  assume "digits t" "c \<in> set t"
  then have "isdigit c" by (simp add: digits_def list_all_iff)
  then show ?thesis by (auto simp: isdigit_def isspace_def)
qed




lemma str_split_no_sep: "sep \<notin> set p \<Longrightarrow> str_split sep p = [p]"
  by (induction p) auto

lemma str_split_append:
  "sep \<notin> set p \<Longrightarrow> str_split sep (p @ sep # rest) = p # str_split sep rest"
  by (induction p) auto

lemma str_join_Cons:
  "str_join sep (p # ps) = (if ps = [] then p else p @ sep @ str_join sep ps)"
  by (cases ps) simp_all

lemma str_split_join:
  "ps \<noteq> [] \<Longrightarrow> \<forall>p\<in>set ps. sep \<notin> set p \<Longrightarrow> str_split sep (str_join [sep] ps) = ps"
proof (induction ps)
  case Nil
  then show ?case by simp
next
  case (Cons p ps)
  show ?case
  proof (cases "ps = []")
    case True
    with Cons.prems show ?thesis by (simp add: str_split_no_sep)
  next
    case False
    with Cons show ?thesis by (simp add: str_join_Cons str_split_append)
  qed
qed

lemma tokens_join:
  assumes "\<forall>p\<in>set ps. p \<noteq> [] \<and> (\<forall>c\<in>set p. \<not> isspace c \<and> c \<noteq> CHR '','')"
  shows "tokens (str_join '','' ps) = ps"
proof (cases "ps = []")
  case True
  then show ?thesis by (simp add: tokens_Nil)
next
  case False
  from assms have "\<forall>p\<in>set ps. CHR '','' \<notin> set p" by blast
  with False have "str_split CHR '','' (str_join '','' ps) = ps" by (rule str_split_join)
  moreover from assms have "map strip ps = ps"
    by (intro map_idI strip_id) blast
  moreover from assms have "filter (\<lambda>t. t \<noteq> []) ps = ps" by (simp add: filter_id_conv)
  ultimately show ?thesis by (simp add: tokens_def)
qed





section \<open>Numerals over the digit limit\<close>

lemma long_numeral_fails:
  assumes "digits t" "int_max_str_digits < length t"
  shows "parse_pages t N = Inl (ValueError (ExceedsDigitLimit (length t)))"
proof -
  from assms(1) have "t \<noteq> []" by (simp add: digits_def)
  with digits_plain [OF assms(1)] have "tokens (str_join '','' [t]) = [t]"
    by (intro tokens_join) simp
  then have "tokens t = [t]" by simp
  with assms show ?thesis by (simp add: parse_pages_eq token_failure_digits)
qed

lemma long_range_fails:
  assumes "digits a" "digits b" "length a \<le> int_max_str_digits"
    "int_max_str_digits < length b"
  shows "parse_pages (a @ CHR ''-'' # b) N = Inl (ValueError (ExceedsDigitLimit (length b)))"
proof -
  let ?t = "a @ CHR ''-'' # b"
  have "\<forall>c\<in>set ?t. \<not> isspace c \<and> c \<noteq> CHR '',''"
    using digits_plain [OF assms(1)] digits_plain [OF assms(2)] hyphen_not_space by auto
  then have "tokens (str_join '','' [?t]) = [?t]"
    by (intro tokens_join) simp
  then have "tokens ?t = [?t]" by simp
  with assms show ?thesis by (simp add: parse_pages_eq token_failure_range)
qed

lemma number_zeros: "number (replicate n CHR ''0'' @ t) = number t"
proof -
  have "foldl (\<lambda>n c. 10 * n + digit_val c) 0 (replicate n CHR ''0'') = 0"
    by (induction n) (simp_all add: digit_val_def)
  then show ?thesis by (simp add: number_def)
qed

lemma padded_digits:
  assumes "digits t"
  shows "digits (padded t)" "number (padded t) = number t"
    "length (padded t) = int_max_str_digits + length t"
proof -
  have "isdigit CHR ''0''" by (simp add: isdigit_def)
  with assms show "digits (padded t)" by (auto simp: padded_def digits_def list_all_iff)
  show "number (padded t) = number t" by (simp add: padded_def number_zeros)
  show "length (padded t) = int_max_str_digits + length t" by (simp add: padded_def)
qed

lemma one_two: "digits ''1''" "number ''1'' = 1" "digits ''2''" "number ''2'' = 2"
  by code_simp+

text \<open>
  C1 as stated fails: the numeral of 1 with 4300 leading zeros is one token, a valid
  single number for the bound 5 that contributes the index 0, and \<open>parse_pages\<close>
  raises on it where the claim has the list with 0.
\<close>

theorem long_numeral_counterexample:
  "tokens (padded ''1'') = [padded ''1'']
   \<and> classify (padded ''1'') = Single 1
   \<and> token_error (padded ''1'') 5 = None
   \<and> token_indices (padded ''1'') = {0}
   \<and> parse_pages (padded ''1'') 5 =
       Inl (ValueError (ExceedsDigitLimit (Suc int_max_str_digits)))"
proof -
  note d = padded_digits [OF one_two(1)]
  from d(1) have ne: "padded ''1'' \<noteq> []" by (simp add: digits_def)
  with digits_plain [OF d(1)] have "tokens (str_join '','' [padded ''1'']) = [padded ''1'']"
    by (intro tokens_join) simp
  then have t: "tokens (padded ''1'') = [padded ''1'']" by simp
  from d one_two have c: "classify (padded ''1'') = Single 1"
    by (simp add: classify_digits)
  from d(1,3) have "parse_pages (padded ''1'') 5 =
      Inl (ValueError (ExceedsDigitLimit (length (padded ''1''))))"
    by (intro long_numeral_fails) simp_all
  with t c d(3) show ?thesis by (simp add: token_error_def token_indices_def)
qed

text \<open>
  C2 as stated fails: the range from 1 to 2, the 2 written with 4300 leading zeros,
  matches the grammar of ranges and is in none of the errors of the claim for the
  bound 5, and \<open>parse_pages\<close> raises on it.
\<close>

theorem long_range_numeral_counterexample:
  "tokens (''1-'' @ padded ''2'') = [''1-'' @ padded ''2'']
   \<and> classify (''1-'' @ padded ''2'') = Range 1 2
   \<and> token_error (''1-'' @ padded ''2'') 5 = None
   \<and> parse_pages (''1-'' @ padded ''2'') 5 =
       Inl (ValueError (ExceedsDigitLimit (Suc int_max_str_digits)))"
proof -
  note d = padded_digits [OF one_two(3)]
  have e: "''1-'' @ padded ''2'' = ''1'' @ CHR ''-'' # padded ''2''" by simp
  have "\<forall>c\<in>set (''1'' @ CHR ''-'' # padded ''2''). \<not> isspace c \<and> c \<noteq> CHR '',''"
    using digits_plain [OF one_two(1)] digits_plain [OF d(1)] hyphen_not_space by auto
  then have "tokens (str_join '','' [''1'' @ CHR ''-'' # padded ''2'']) =
      [''1'' @ CHR ''-'' # padded ''2'']"
    by (intro tokens_join) simp
  then have t: "tokens (''1'' @ CHR ''-'' # padded ''2'') = [''1'' @ CHR ''-'' # padded ''2'']"
    by simp
  have c: "classify (''1'' @ CHR ''-'' # padded ''2'') = Range 1 2"
    using classify_range [OF one_two(1) d(1)] one_two(2,4) d(2) by simp
  have "length ''1'' \<le> int_max_str_digits" by (simp add: int_max_str_digits_def)
  with one_two(1) d(1,3) have "parse_pages (''1'' @ CHR ''-'' # padded ''2'') 5 =
      Inl (ValueError (ExceedsDigitLimit (length (padded ''2''))))"
    by (intro long_range_fails) simp_all
  with t c d(3) show ?thesis unfolding e by (simp add: token_error_def)
qed




end
